theory Spec2Isabelle
  imports Complex_Main "HOL-Library.Sublist"
begin

section \<open>Strings as Python sees them\<close>

text \<open>
  Source strings are character lists. The characters for which \<^verbatim>\<open>str.isspace\<close>
  holds in the ASCII range are tab, line feed, vertical tab, form feed, carriage return,
  the four separators 0x1C to 0x1F and the blank; \<^verbatim>\<open>strip\<close>, \<^verbatim>\<open>lstrip\<close> and
  \<^verbatim>\<open>split()\<close> remove exactly these.
\<close>

definition is_space :: "char \<Rightarrow> bool" where
  "is_space c = (c \<in> set [CHR 0x09, CHR 0x0A, CHR 0x0B, CHR 0x0C, CHR 0x0D,
                            CHR 0x1C, CHR 0x1D, CHR 0x1E, CHR 0x1F, CHR 0x20])"

definition lstrip :: "string \<Rightarrow> string" where
  "lstrip s = dropWhile is_space s"

definition rstrip :: "string \<Rightarrow> string" where
  "rstrip s = rev (dropWhile is_space (rev s))"

definition strip :: "string \<Rightarrow> string" where
  "strip s = rstrip (lstrip s)"

text \<open>\<^verbatim>\<open>sub in s\<close> on strings: \<open>sub\<close> occurs in \<open>s\<close> as a contiguous block.\<close>

fun contains :: "string \<Rightarrow> string \<Rightarrow> bool" where
  "contains sub [] = (sub = [])"
| "contains sub (c # cs) = (prefix sub (c # cs) \<or> contains sub cs)"

text \<open>\<^verbatim>\<open>s.split()\<close>: the maximal blocks of non-space characters, in order.\<close>

function split_ws :: "string \<Rightarrow> string list" where
  "split_ws s =
     (let t = dropWhile is_space s
      in if t = [] then []
         else takeWhile (\<lambda>c. \<not> is_space c) t # split_ws (dropWhile (\<lambda>c. \<not> is_space c) t))"
  by pat_completeness auto
termination
proof (relation "measure length")
  show "wf (measure length)" by simp
next
  fix s t :: string
  assume t: "t = dropWhile is_space s" and ne: "t \<noteq> []"
  have "\<not> is_space (hd t)"
    using t ne hd_dropWhile by metis
  then have "dropWhile (\<lambda>c. \<not> is_space c) t = dropWhile (\<lambda>c. \<not> is_space c) (tl t)"
    using ne by (cases t) auto
  moreover have "length (dropWhile (\<lambda>c. \<not> is_space c) (tl t)) \<le> length (tl t)"
    by (rule length_dropWhile_le)
  ultimately have "length (dropWhile (\<lambda>c. \<not> is_space c) t) \<le> length (tl t)"
    by simp
  also have "\<dots> < length t" using ne by (cases t) auto
  also have "\<dots> \<le> length s" unfolding t by (rule length_dropWhile_le)
  finally show "(dropWhile (\<lambda>c. \<not> is_space c) t, s) \<in> measure length" by simp
qed

declare split_ws.simps [simp del]

section \<open>The parser: \<^verbatim>\<open>phixeo_parser.py\<close>\<close>

subsection \<open>Nodes\<close>

text \<open>
  A node is the dictionary built by \<^verbatim>\<open>_create_node\<close> and \<^verbatim>\<open>_create_fractal_parent\<close>.
  The keys \<^verbatim>\<open>connections\<close> and \<^verbatim>\<open>subnodes\<close> are absent from some nodes, so both are
  optional. A connection is a reference to another element of \<^verbatim>\<open>self.nodes\<close>, kept here
  as that element's index in the list.
\<close>

datatype node_type = Tetrahedral | Hexagonal | Pentagonal | Fractal

datatype node = Node
  (ntype: node_type)
  (nsize: real)
  (nvalue: string)
  (xpos: real)
  (ypos: real)
  (color: string)
  (connections: "nat list option")
  (subnodes: "node list option")

definition phi :: real where
  "phi = (1 + sqrt 5) / 2"

fun constants :: "node_type \<Rightarrow> real" where
  "constants Tetrahedral = (pi\<^sup>2 + phi * sqrt 5) / 2"
| "constants Hexagonal = pi + (2 * sqrt 3) / phi"
| "constants Pentagonal = (pi + phi + sqrt 5) / 3"
| "constants Fractal = pi * phi\<^sup>2 + sqrt 2"

subsection \<open>\<^verbatim>\<open>_create_node\<close>\<close>

definition create_node :: "string \<Rightarrow> real \<Rightarrow> real \<Rightarrow> node option" where
  "create_node line x y =
     (if contains ''print'' line \<or> contains ''='' line then
        Some (Node Tetrahedral (constants Tetrahedral) line x y ''red'' None None)
      else if contains ''for'' line then
        Some (Node Hexagonal (constants Hexagonal) line x y ''blue'' (Some []) None)
      else if contains ''if'' line then
        Some (Node Pentagonal (constants Pentagonal) line x y ''green'' (Some []) None)
      else if contains ''def'' line then
        Some (Node Fractal (constants Fractal) line x y ''purple'' (Some []) None)
      else None)"

text \<open>The kind a line is given, whatever its position.\<close>

definition classify :: "string \<Rightarrow> node_type option" where
  "classify line = map_option ntype (create_node line 0 0)"

subsection \<open>\<^verbatim>\<open>parse\<close>\<close>

text \<open>
  Lines 43 to 45 compute the coordinates of line \<open>n\<close> on a spiral in floating point.
  That arithmetic (its rounding, the infinite radius from about line 2934 on and the
  \<^verbatim>\<open>OverflowError\<close> of the power from about line 2950 on) is not modelled. The
  coordinates are a parameter \<open>layout\<close>, and what is said of \<open>parse\<close> holds for
  every choice of it, for the sources on which line 44 does not raise.

  The first loop of \<^verbatim>\<open>parse\<close> over \<^verbatim>\<open>enumerate(lines)\<close>, from line number \<open>n\<close> on:
  the futures are collected in submission order, so the nodes are in line order; blank
  lines and lines \<^verbatim>\<open>_create_node\<close> rejects give no node, yet advance \<open>n\<close>.
\<close>

fun parse_from :: "(nat \<Rightarrow> real \<times> real) \<Rightarrow> nat \<Rightarrow> string list \<Rightarrow> node list" where
  "parse_from layout n [] = []"
| "parse_from layout n (l # ls) =
     (let line = strip l
      in if line = [] then parse_from layout (Suc n) ls
         else (case create_node line (fst (layout n)) (snd (layout n)) of
                 None \<Rightarrow> parse_from layout (Suc n) ls
               | Some nd \<Rightarrow> nd # parse_from layout (Suc n) ls))"

subsection \<open>\<^verbatim>\<open>_process_connections\<close>\<close>

text \<open>\<^verbatim>\<open>len(l) - len(l.lstrip())\<close>\<close>

definition indent :: "string \<Rightarrow> nat" where
  "indent l = length l - length (lstrip l)"

text \<open>
  \<^verbatim>\<open>for j in range(index - 1, -1, -1)\<close>: the first \<open>j\<close> below \<open>index\<close>, going down,
  whose line is indented less than \<open>indent_level\<close>.
\<close>

fun scan_back :: "string list \<Rightarrow> nat \<Rightarrow> nat \<Rightarrow> nat option" where
  "scan_back lines indent_level 0 = None"
| "scan_back lines indent_level (Suc j) =
     (if indent (lines ! j) < indent_level then Some j
      else scan_back lines indent_level j)"

fun append_connection :: "node \<Rightarrow> nat \<Rightarrow> node" where
  "append_connection (Node t s v x y c conns subs) j =
     Node t s v x y c (map_option (\<lambda>cs. cs @ [j]) conns) subs"

text \<open>
  \<open>index\<close> is the node's place in \<^verbatim>\<open>self.nodes\<close>, and the code reads \<^verbatim>\<open>lines[index]\<close>
  with it. There are never more nodes than lines, so the read is in range.
\<close>

definition process_connections :: "string list \<Rightarrow> nat \<Rightarrow> node \<Rightarrow> node" where
  "process_connections lines index nd =
     (let indent_level = indent (lines ! index)
      in if indent_level > 0 then
           (case scan_back lines indent_level index of
              None \<Rightarrow> nd
            | Some j \<Rightarrow> append_connection nd j)
         else nd)"

text \<open>
  \<^verbatim>\<open>_add_connections_parallel\<close>: every node that has the key \<^verbatim>\<open>connections\<close> is
  processed, each task writing to its own node only.
\<close>

definition add_connections :: "string list \<Rightarrow> node list \<Rightarrow> node list" where
  "add_connections lines nodes =
     map (\<lambda>(i, nd). if connections nd \<noteq> None then process_connections lines i nd else nd)
         (enumerate 0 nodes)"

text \<open>\<^verbatim>\<open>parse\<close>, applied to \<^verbatim>\<open>self.code.splitlines()\<close>.\<close>

definition parse :: "(nat \<Rightarrow> real \<times> real) \<Rightarrow> string list \<Rightarrow> node list" where
  "parse layout lines = add_connections lines (parse_from layout 0 lines)"

subsection \<open>\<^verbatim>\<open>optimize\<close>\<close>

datatype error = IndexError | ValueError

text \<open>\<^verbatim>\<open>value.split()[0]\<close> raises when the value has no token.\<close>

definition first_token :: "string \<Rightarrow> error + string" where
  "first_token v = (case split_ws v of [] \<Rightarrow> Inl IndexError | t # _ \<Rightarrow> Inr t)"

definition nodes_are_similar :: "node \<Rightarrow> node \<Rightarrow> error + bool" where
  "nodes_are_similar node1 node2 =
     (if ntype node1 \<noteq> ntype node2 then Inr False
      else (case first_token (nvalue node1) of
              Inl e \<Rightarrow> Inl e
            | Inr a \<Rightarrow> (case first_token (nvalue node2) of
                          Inl e \<Rightarrow> Inl e
                        | Inr b \<Rightarrow> Inr (a = b))))"

text \<open>The loop of \<^verbatim>\<open>_group_similar_nodes\<close>, with its two accumulators.\<close>

fun group_loop :: "node list list \<Rightarrow> node list \<Rightarrow> node list \<Rightarrow> error + node list list" where
  "group_loop groups current_group [] =
     Inr (if current_group \<noteq> [] then groups @ [current_group] else groups)"
| "group_loop groups current_group (nd # rest) =
     (if current_group = [] then group_loop groups (current_group @ [nd]) rest
      else (case nodes_are_similar (last current_group) nd of
              Inl e \<Rightarrow> Inl e
            | Inr True \<Rightarrow> group_loop groups (current_group @ [nd]) rest
            | Inr False \<Rightarrow>
                group_loop (if current_group \<noteq> [] then groups @ [current_group] else groups)
                           [nd] rest))"

definition group_similar_nodes :: "node list \<Rightarrow> error + node list list" where
  "group_similar_nodes nodes = group_loop [] [] nodes"

fun lower_name :: "node_type \<Rightarrow> string" where
  "lower_name Tetrahedral = ''tetrahedral''"
| "lower_name Hexagonal = ''hexagonal''"
| "lower_name Pentagonal = ''pentagonal''"
| "lower_name Fractal = ''fractal''"

fun create_fractal_parent :: "node list \<Rightarrow> error + node" where
  "create_fractal_parent [] = Inl IndexError"
| "create_fractal_parent (g # gs) =
     Inr (Node Fractal (constants Fractal) (''group_'' @ lower_name (ntype g))
            (sum_list (map xpos (g # gs)) / real (length (g # gs)))
            (sum_list (map ypos (g # gs)) / real (length (g # gs)))
            ''purple'' (Some []) (Some (g # gs)))"

definition optimize_group :: "node list \<Rightarrow> error + node" where
  "optimize_group g =
     (if length g > 1 then create_fractal_parent g
      else (case g of [] \<Rightarrow> Inl IndexError | nd # _ \<Rightarrow> Inr nd))"

fun optimize_groups :: "node list list \<Rightarrow> error + node list" where
  "optimize_groups [] = Inr []"
| "optimize_groups (g # gs) =
     (case optimize_group g of
        Inl e \<Rightarrow> Inl e
      | Inr nd \<Rightarrow> (case optimize_groups gs of Inl e \<Rightarrow> Inl e | Inr nds \<Rightarrow> Inr (nd # nds)))"

definition optimize :: "node list \<Rightarrow> error + node list" where
  "optimize nodes =
     (case group_similar_nodes nodes of Inl e \<Rightarrow> Inl e | Inr groups \<Rightarrow> optimize_groups groups)"

text \<open>
  The leaves of a node, counting into \<^verbatim>\<open>subnodes\<close>: a node without the key is one
  leaf, an aggregate has the leaves of its members.
\<close>

fun count_leaves :: "node \<Rightarrow> nat" where
  "count_leaves (Node t s v x y c conns subs) =
     (case subs of None \<Rightarrow> 1 | Some g \<Rightarrow> sum_list (map count_leaves g))"

subsection \<open>Predicates and examples used in the statements\<close>

text \<open>
  Two nodes the optimizer puts into one group, and two groups it keeps apart: the last
  node of the one is not similar to the first node of the other.
\<close>

definition similar :: "node \<Rightarrow> node \<Rightarrow> bool" where
  "similar a b = (nodes_are_similar a b = Inr True)"

definition run_break :: "node list \<Rightarrow> node list \<Rightarrow> bool" where
  "run_break g h = (nodes_are_similar (last g) (hd h) = Inr False)"

text \<open>A source line that gives a node: it is not blank and \<^verbatim>\<open>_create_node\<close> accepts it.\<close>

definition yields_node :: "string \<Rightarrow> bool" where
  "yields_node l = (strip l \<noteq> [] \<and> classify (strip l) \<noteq> None)"

text \<open>The examples do not look at coordinates: every line is put at the origin.\<close>

definition flat_layout :: "nat \<Rightarrow> real \<times> real" where
  "flat_layout n = (0, 0)"

definition ex_block :: "string list" where
  "ex_block = [''for i in range(3):'', ''    if i:'']"

definition ex_body :: "string list" where
  "ex_body = [''for i in range(3):'', ''    print(i)'']"

definition ex_nodes :: "node list" where
  "ex_nodes = [Node Tetrahedral 0 ''x = 1'' 0 0 ''red'' None None,
               Node Tetrahedral 0 ''x = 2'' 2 4 ''red'' None None,
               Node Hexagonal 0 ''for i in x:'' 0 0 ''blue'' (Some []) None]"

section \<open>The runtime: \<^verbatim>\<open>phixeo_runtime.py\<close>\<close>

subsection \<open>More string operations\<close>

text \<open>
  \<^verbatim>\<open>s.split(sep)\<close> for a non-empty separator: the pieces between the occurrences of
  \<open>sep\<close>, found from the left without overlap. There is always at least one piece.
\<close>

function split_sep :: "string \<Rightarrow> string \<Rightarrow> string list" where
  "split_sep sep [] = [[]]"
| "split_sep sep (c # cs) =
     (if sep \<noteq> [] \<and> prefix sep (c # cs) then [] # split_sep sep (drop (length sep) (c # cs))
      else (case split_sep sep cs of [] \<Rightarrow> [[c]] | p # ps \<Rightarrow> (c # p) # ps))"
  by pat_completeness auto
termination
  by (relation "measure (\<lambda>(sep, s). length s)") auto

text \<open>\<^verbatim>\<open>s.rstrip(":")\<close>\<close>

definition rstrip_colon :: "string \<Rightarrow> string" where
  "rstrip_colon s = rev (dropWhile (\<lambda>c. c = CHR '':'') (rev s))"

subsection \<open>Nodes of the editor, as the runtime reads them\<close>

text \<open>
  The runtime is given the editor's graphics items. An item is an object; \<open>ref\<close> names
  it, and the store gives the dictionary \<^verbatim>\<open>node.data(0)\<close> of each. The editor writes
  one of the four type names into \<^verbatim>\<open>type\<close>. The keys \<^verbatim>\<open>connections\<close> and
  \<^verbatim>\<open>subnodes\<close> may be absent.
\<close>

type_synonym ref = nat

record rt_node =
  rtype :: node_type
  rvalue :: string
  rconnections :: "ref list option"
  rsubnodes :: "ref list option"

subsection \<open>The Python interpreter\<close>

text \<open>
  \<^verbatim>\<open>exec\<close> and \<^verbatim>\<open>eval\<close> run source text against the dictionary \<^verbatim>\<open>self._common_ops\<close>,
  which is the environment \<open>'env\<close>; a call of its \<^verbatim>\<open>print\<close> appends a line to the
  output. The interpreter is a parameter: \<open>py_exec\<close> and \<open>py_eval\<close> give the new
  environment, the lines printed, and the message of the exception raised, if one was;
  \<open>py_bool\<close> is the truth test of \<^verbatim>\<open>if\<close>, \<open>py_iter\<close> the values a \<^verbatim>\<open>for\<close> statement
  draws (for a \<^verbatim>\<open>range\<close>, those of \<^verbatim>\<open>np.arange\<close>), and \<open>py_str\<close> the text of a value
  in an f-string.
\<close>

record ('env, 'v) python =
  py_exec :: "string \<Rightarrow> 'env \<Rightarrow> 'env \<times> string list \<times> string option"
  py_eval :: "string \<Rightarrow> 'env \<Rightarrow> 'env \<times> string list \<times> (string + 'v)"
  py_bool :: "'v \<Rightarrow> string + bool"
  py_iter :: "'v \<Rightarrow> string + 'v list"
  py_str :: "'v \<Rightarrow> string"

record 'env rt_state =
  env :: 'env
  routput :: "string list"
  executed :: "ref set"

definition emit :: "string list \<Rightarrow> 'env rt_state \<Rightarrow> 'env rt_state" where
  "emit ls st = st\<lparr>routput := routput st @ ls\<rparr>"

definition key_error :: "string \<Rightarrow> string" where
  "key_error k = [CHR 0x27] @ k @ [CHR 0x27]"

subsection \<open>The thread pool\<close>

text \<open>
  At three places (lines 125 to 136, 144 to 155 and 162 to 173) the code goes through
  a list of nodes, tests each with \<^verbatim>\<open>conn not in executed\<close>, hands those it does not
  find to \<^verbatim>\<open>executor.submit\<close>, and then waits for every future. A task enters its node
  into \<^verbatim>\<open>executed\<close> itself, in its worker thread. So which tests find a node, how often
  a node is submitted, in which order the tasks write, and whether the waiting ends with
  the four workers of the pool, all depend on how the threads are scheduled. No schedule
  is fixed here. The whole dispatch is a parameter: from the state at its first test and
  the list of nodes it gives the state in which the last future has returned, or
  \<open>None\<close> when that does not happen. A node's own code between two dispatches is
  one step; what the tasks of other nodes do to the shared state in between is outside
  this model.
\<close>

type_synonym 'env pool = "'env rt_state \<Rightarrow> ref list \<Rightarrow> 'env rt_state option"

subsection \<open>\<^verbatim>\<open>_execute_node_parallel\<close>\<close>

text \<open>
  The loop \<^verbatim>\<open>for val in values\<close> of a Hexagonal node. The dictionary \<^verbatim>\<open>locals_dict\<close>,
  which the loop builds for each value, is never read by the code and is left out.
\<close>

fun loop_values ::
    "('env, 'v) python \<Rightarrow> 'env pool \<Rightarrow> 'env rt_state \<Rightarrow> rt_node \<Rightarrow> 'v list \<Rightarrow> 'env rt_state option"
where
  "loop_values py pool st data [] = Some st"
| "loop_values py pool st data (val # vals) =
     (let st = emit [rvalue data @ ''  # '' @ py_str py val] st
      in case rconnections data of
           None \<Rightarrow> Some (emit [''Error in loop: '' @ key_error ''connections''] st)
         | Some conns \<Rightarrow>
             (case pool st conns of
                None \<Rightarrow> None
              | Some st' \<Rightarrow> loop_values py pool st' data vals))"

text \<open>
  An exception is given by its message, and every exception the interpreter raises is
  one that \<^verbatim>\<open>except Exception\<close> catches.
\<close>

definition execute_node_parallel ::
    "('env, 'v) python \<Rightarrow> 'env pool \<Rightarrow> (ref \<Rightarrow> rt_node) \<Rightarrow> 'env rt_state \<Rightarrow> ref \<Rightarrow> 'env rt_state option"
where
  "execute_node_parallel py pool store st node =
     (let data = store node;
          st = st\<lparr>executed := insert node (executed st)\<rparr>
      in case rtype data of
           Tetrahedral \<Rightarrow>
             (case py_exec py (rvalue data) (env st) of
                (e, printed, exc) \<Rightarrow>
                  Some (emit (case exc of None \<Rightarrow> [] | Some m \<Rightarrow> [''Error: '' @ m])
                          (emit printed (st\<lparr>env := e\<rparr>))))
         | Hexagonal \<Rightarrow>
             (case split_sep '' in '' (rvalue data) of
                [loop_var, loop_range] \<Rightarrow>
                  (case py_eval py loop_range (env st) of
                     (e, printed, r) \<Rightarrow>
                       (let st = emit printed (st\<lparr>env := e\<rparr>)
                        in case r of
                             Inl m \<Rightarrow> Some (emit [''Error in loop: '' @ m] st)
                           | Inr v \<Rightarrow>
                               (case py_iter py v of
                                  Inl m \<Rightarrow> Some (emit [''Error in loop: '' @ m] st)
                                | Inr vals \<Rightarrow> loop_values py pool st data vals)))
              | [] \<Rightarrow> Some (emit [''Error in loop: not enough values to unpack (expected 2, got 0)''] st)
              | [_] \<Rightarrow> Some (emit [''Error in loop: not enough values to unpack (expected 2, got 1)''] st)
              | _ \<Rightarrow> Some (emit [''Error in loop: too many values to unpack (expected 2)''] st))
         | Pentagonal \<Rightarrow>
             (case py_eval py (rstrip_colon (rvalue data)) (env st) of
                (e, printed, r) \<Rightarrow>
                  (let st = emit printed (st\<lparr>env := e\<rparr>)
                   in case r of
                        Inl m \<Rightarrow> Some (emit [''Error in if: '' @ m] st)
                      | Inr v \<Rightarrow>
                          (case py_bool py v of
                             Inl m \<Rightarrow> Some (emit [''Error in if: '' @ m] st)
                           | Inr False \<Rightarrow> Some st
                           | Inr True \<Rightarrow>
                               (let st = emit [rvalue data] st
                                in case rconnections data of
                                     None \<Rightarrow> Some (emit [''Error in if: '' @ key_error ''connections''] st)
                                   | Some conns \<Rightarrow> pool st conns))))
         | Fractal \<Rightarrow>
             (let st = emit [rvalue data] st
              in case rsubnodes data of
                   None \<Rightarrow> Some st
                 | Some subs \<Rightarrow> pool st subs))"

subsection \<open>Notions used in the statements about the runtime\<close>














text \<open>
  The state once a node's evaluation has begun and its expression has been evaluated:
  the node is in \<^verbatim>\<open>executed\<close>, the environment is the one the evaluation left, and what
  it printed is in the output.
\<close>

definition enter :: "ref \<Rightarrow> 'env \<Rightarrow> string list \<Rightarrow> 'env rt_state \<Rightarrow> 'env rt_state" where
  "enter node e printed st = emit printed (st\<lparr>executed := insert node (executed st), env := e\<rparr>)"



section \<open>The editor's file format: \<^verbatim>\<open>phixeo_editor.py\<close>\<close>

text \<open>
  \<^verbatim>\<open>self.nodes\<close> of the editor is a list of graphics items. An element is given here by
  the object's identity and what \<^verbatim>\<open>save_phixeo\<close> reads of it: the dictionary
  \<^verbatim>\<open>data(0)\<close>, whose \<^verbatim>\<open>connections\<close> are references to items, and the position.
\<close>

record item =
  itype :: node_type
  ivalue :: string
  ipos :: "real \<times> real"
  iconnections :: "ref list"

text \<open>One object of the JSON array, its keys in the order they are written.\<close>

record phix =
  p_type :: node_type
  p_x :: real
  p_y :: real
  p_value :: string
  p_connections :: "int list"

text \<open>\<^verbatim>\<open>xs.index(c)\<close>: the first place of \<open>c\<close>, or a \<^verbatim>\<open>ValueError\<close>.\<close>

fun index_of :: "'a list \<Rightarrow> 'a \<Rightarrow> error + nat" where
  "index_of [] c = Inl ValueError"
| "index_of (x # xs) c =
     (if x = c then Inr 0
      else (case index_of xs c of Inl e \<Rightarrow> Inl e | Inr i \<Rightarrow> Inr (Suc i)))"

text \<open>\<^verbatim>\<open>xs[i]\<close> with Python's negative indices, or an \<^verbatim>\<open>IndexError\<close>.\<close>

definition py_nth :: "'a list \<Rightarrow> int \<Rightarrow> error + 'a" where
  "py_nth xs i =
     (if 0 \<le> i \<and> i < int (length xs) then Inr (xs ! nat i)
      else if i < 0 \<and> - int (length xs) \<le> i then Inr (xs ! nat (int (length xs) + i))
      else Inl IndexError)"

text \<open>A comprehension or loop whose steps may raise: the first exception ends it.\<close>

fun collect :: "(error + 'a) list \<Rightarrow> error + 'a list" where
  "collect [] = Inr []"
| "collect (Inl e # zs) = Inl e"
| "collect (Inr a # zs) = (case collect zs of Inl e \<Rightarrow> Inl e | Inr as \<Rightarrow> Inr (a # as))"

definition save_record :: "ref list \<Rightarrow> item \<Rightarrow> error + phix" where
  "save_record objs it =
     (case collect (map (index_of objs) (iconnections it)) of
        Inl e \<Rightarrow> Inl e
      | Inr idxs \<Rightarrow>
          Inr \<lparr>p_type = itype it, p_x = fst (ipos it), p_y = snd (ipos it),
               p_value = ivalue it, p_connections = map int idxs\<rparr>)"

definition save_phixeo :: "(ref \<times> item) list \<Rightarrow> error + phix list" where
  "save_phixeo nodes = collect (map (\<lambda>(r, it). save_record (map fst nodes) it) nodes)"

text \<open>
  \<^verbatim>\<open>load_phixeo\<close> makes one new item for each record, in order, with no connections,
  and then appends \<^verbatim>\<open>nodes[conn_idx]\<close> for each index of each record. The new objects
  are named by their place in the new list.
\<close>

definition load_record :: "ref list \<Rightarrow> phix \<Rightarrow> error + item" where
  "load_record objs p =
     (case collect (map (py_nth objs) (p_connections p)) of
        Inl e \<Rightarrow> Inl e
      | Inr conns \<Rightarrow>
          Inr \<lparr>itype = p_type p, ivalue = p_value p, ipos = (p_x p, p_y p),
               iconnections = conns\<rparr>)"

definition load_phixeo :: "phix list \<Rightarrow> error + (ref \<times> item) list" where
  "load_phixeo data =
     (let objs = [0..<length data]
      in case collect (map (load_record objs) data) of
           Inl e \<Rightarrow> Inl e
         | Inr its \<Rightarrow> Inr (zip objs its))"

definition ex_editor :: "(ref \<times> item) list" where
  "ex_editor =
     [(7, \<lparr>itype = Hexagonal, ivalue = ''i in range(2)'', ipos = (1, 2), iconnections = [4, 7]\<rparr>),
      (4, \<lparr>itype = Tetrahedral, ivalue = ''print(1)'', ipos = (3, 5), iconnections = []\<rparr>)]"


section \<open>Substrings\<close>

lemma contains_sublist: "contains sub s \<longleftrightarrow> sublist sub s"
  by (induction s) (auto simp: sublist_Cons_right)

lemma contains_iff: "contains sub s \<longleftrightarrow> (\<exists>p q. s = p @ sub @ q)"
  by (simp add: contains_sublist sublist_def)

section \<open>Classification\<close>

text \<open>
  C3, as the specification states it, fails: the line \<^verbatim>\<open>if x == 2:\<close> contains \<^verbatim>\<open>=\<close>,
  and \<^verbatim>\<open>_create_node\<close> tests \<^verbatim>\<open>print\<close> and \<^verbatim>\<open>=\<close> before \<^verbatim>\<open>for\<close>, \<^verbatim>\<open>if\<close> and
  \<^verbatim>\<open>def\<close>, so the line becomes a Tetrahedral (Statement) node, not a Pentagonal
  (Conditional) one.
\<close>

theorem classify_if_with_equals_is_statement:
  "contains ''if '' ''if x == 2:'' \<and> \<not> contains ''for '' ''if x == 2:''
   \<and> classify ''if x == 2:'' = Some Tetrahedral
   \<and> classify ''if x == 2:'' \<noteq> Some Pentagonal"
  by (simp add: classify_def create_node_def)

text \<open>
  C3, amended to the order of the code: a line in which \<^verbatim>\<open>print\<close> or \<^verbatim>\<open>=\<close> occurs is
  a Statement (Tetrahedral); otherwise a line in which \<^verbatim>\<open>for\<close> occurs is a Loop
  (Hexagonal); otherwise one in which \<^verbatim>\<open>if\<close> occurs is a Conditional (Pentagonal);
  otherwise one in which \<^verbatim>\<open>def\<close> occurs is a Function (Fractal); every other line is
  skipped. The keywords are matched without a following blank, and the node keeps the
  line as its value.
\<close>

theorem classify_dispatch_order:
  "classify line =
     (if (\<exists>p q. line = p @ ''print'' @ q) \<or> (\<exists>p q. line = p @ ''='' @ q) then Some Tetrahedral
      else if (\<exists>p q. line = p @ ''for'' @ q) then Some Hexagonal
      else if (\<exists>p q. line = p @ ''if'' @ q) then Some Pentagonal
      else if (\<exists>p q. line = p @ ''def'' @ q) then Some Fractal
      else None)
   \<and> (\<forall>nd. create_node line x y = Some nd \<longrightarrow>
         nvalue nd = line \<and> xpos nd = x \<and> ypos nd = y \<and> subnodes nd = None
         \<and> (connections nd = None \<longleftrightarrow> ntype nd = Tetrahedral))"
  unfolding classify_def create_node_def contains_iff [symmetric]
  by (simp split: if_splits)

theorem classify_dispatch_order_witness:
  "classify ''for i in range(3):'' = Some Hexagonal
   \<and> (\<exists>nd. create_node ''for i in range(3):'' 1 2 = Some nd
         \<and> nvalue nd = ''for i in range(3):'' \<and> connections nd \<noteq> None)"
  using classify_dispatch_order [of "''for i in range(3):''" 1 2, unfolded contains_iff [symmetric]]
  by (simp add: create_node_def)

section \<open>Tokens\<close>

lemma split_ws_Nil_iff: "split_ws s = [] \<longleftrightarrow> (\<forall>c\<in>set s. is_space c)"
proof -
  have "split_ws s = [] \<longleftrightarrow> dropWhile is_space s = []"
    by (subst split_ws.simps) (simp add: Let_def)
  also have "\<dots> \<longleftrightarrow> (\<forall>c\<in>set s. is_space c)"
    by (simp add: dropWhile_eq_Nil_conv)
  finally show ?thesis .
qed

lemma first_token_ok: "split_ws v \<noteq> [] \<Longrightarrow> \<exists>t. first_token v = Inr t"
  by (cases "split_ws v") (auto simp: first_token_def)

lemma nodes_are_similar_ok:
  "split_ws (nvalue a) \<noteq> [] \<Longrightarrow> split_ws (nvalue b) \<noteq> [] \<Longrightarrow> \<exists>r. nodes_are_similar a b = Inr r"
  using first_token_ok [of "nvalue a"] first_token_ok [of "nvalue b"]
  by (auto simp: nodes_are_similar_def)


section \<open>Parsing and the enclosing block\<close>

lemma create_node_cases:
  "create_node l x y = None \<or>
   (\<exists>nd. create_node l x y = Some nd \<and> nvalue nd = l \<and> xpos nd = x \<and> ypos nd = y \<and> subnodes nd = None
      \<and> (classify l = Some (ntype nd))
      \<and> (if ntype nd = Tetrahedral then connections nd = None else connections nd = Some []))"
  by (simp add: create_node_def classify_def)

lemma create_node_None: "create_node l x y = None \<longleftrightarrow> classify l = None"
  by (simp add: create_node_def classify_def)

lemma length_parse_from: "length (parse_from layout n ls) \<le> length ls"
proof (induction ls arbitrary: n)
  case Nil
  then show ?case by simp
next
  case (Cons l ls)
  have "length (parse_from layout (Suc n) ls) \<le> length ls" by (rule Cons.IH)
  then show ?case by (simp add: Let_def split: option.splits)
qed

lemma parse_from_conns:
  "nd \<in> set (parse_from layout n ls) \<Longrightarrow>
   subnodes nd = None \<and> (if ntype nd = Tetrahedral then connections nd = None else connections nd = Some [])"
proof (induction ls arbitrary: n)
  case Nil
  then show ?case by simp
next
  case (Cons l ls)
  let ?c = "create_node (strip l) (fst (layout n)) (snd (layout n))"
  have rest: "nd \<in> set (parse_from layout (Suc n) ls) \<Longrightarrow> ?case"
    by (rule Cons.IH)
  show ?case
  proof (cases "strip l = [] \<or> ?c = None")
    case True
    then have "parse_from layout n (l # ls) = parse_from layout (Suc n) ls"
      by (auto simp: Let_def)
    with Cons.prems rest show ?thesis by simp
  next
    case False
    then obtain nd' where c: "?c = Some nd'" by auto
    with False have eq: "parse_from layout n (l # ls) = nd' # parse_from layout (Suc n) ls"
      by (simp add: Let_def)
    have "subnodes nd' = None \<and>
      (if ntype nd' = Tetrahedral then connections nd' = None else connections nd' = Some [])"
      using create_node_cases [of "strip l" "fst (layout n)" "snd (layout n)"] c by simp
    with Cons.prems eq rest show ?thesis by auto
  qed
qed

lemma parse_from_all:
  "\<forall>l\<in>set ls. yields_node l \<Longrightarrow>
   length (parse_from layout n ls) = length ls \<and>
   (\<forall>i<length ls. create_node (strip (ls ! i)) (fst (layout (n + i))) (snd (layout (n + i)))
        = Some (parse_from layout n ls ! i))"
proof (induction ls arbitrary: n)
  case Nil
  then show ?case by simp
next
  case (Cons l ls)
  from Cons.prems have yl: "strip l \<noteq> []" "classify (strip l) \<noteq> None"
    by (simp_all add: yields_node_def)
  then obtain nd where nd: "create_node (strip l) (fst (layout n)) (snd (layout n)) = Some nd"
    using create_node_None [of "strip l" "fst (layout n)" "snd (layout n)"] by auto
  from Cons.prems have "\<forall>l\<in>set ls. yields_node l" by simp
  from Cons.IH [OF this, of "Suc n"] have IH:
    "length (parse_from layout (Suc n) ls) = length ls"
    "\<And>i. i < length ls \<Longrightarrow> create_node (strip (ls ! i)) (fst (layout (Suc n + i))) (snd (layout (Suc n + i)))
        = Some (parse_from layout (Suc n) ls ! i)"
    by auto
  have eq: "parse_from layout n (l # ls) = nd # parse_from layout (Suc n) ls"
    using yl nd by (simp add: Let_def)
  show ?case
  proof (intro conjI allI impI)
    show "length (parse_from layout n (l # ls)) = length (l # ls)" using eq IH(1) by simp
  next
    fix i assume "i < length (l # ls)"
    then show "create_node (strip ((l # ls) ! i)) (fst (layout (n + i))) (snd (layout (n + i)))
        = Some (parse_from layout n (l # ls) ! i)"
      using eq nd IH(2) by (cases i) auto
  qed
qed

lemma scan_back_SomeD:
  "scan_back lines d i = Some j \<Longrightarrow>
     j < i \<and> indent (lines ! j) < d \<and> (\<forall>k. j < k \<and> k < i \<longrightarrow> \<not> indent (lines ! k) < d)"
proof (induction i)
  case 0
  then show ?case by simp
next
  case (Suc i)
  show ?case
  proof (cases "indent (lines ! i) < d")
    case True
    with Suc.prems have "j = i" by simp
    with True show ?thesis by simp
  next
    case False
    with Suc.prems have "scan_back lines d i = Some j" by simp
    from Suc.IH [OF this] have j: "j < i" "indent (lines ! j) < d"
      and k: "\<And>k. j < k \<Longrightarrow> k < i \<Longrightarrow> \<not> indent (lines ! k) < d" by auto
    have "\<not> indent (lines ! k) < d" if "j < k" "k < Suc i" for k
    proof (cases "k = i")
      case True
      with False show ?thesis by simp
    next
      case ne: False
      with that have "k < i" by simp
      with that k show ?thesis by simp
    qed
    with j show ?thesis by simp
  qed
qed

lemma scan_back_SomeI:
  "j < i \<Longrightarrow> indent (lines ! j) < d \<Longrightarrow>
   (\<forall>k. j < k \<and> k < i \<longrightarrow> \<not> indent (lines ! k) < d) \<Longrightarrow> scan_back lines d i = Some j"
proof (induction i)
  case 0
  then show ?case by simp
next
  case (Suc i)
  show ?case
  proof (cases "j = i")
    case True
    with Suc.prems show ?thesis by simp
  next
    case False
    with Suc.prems have ji: "j < i" by simp
    with Suc.prems have ni: "\<not> indent (lines ! i) < d" by simp
    have "\<forall>k. j < k \<and> k < i \<longrightarrow> \<not> indent (lines ! k) < d"
      using Suc.prems(3) by simp
    from Suc.IH [OF ji Suc.prems(2) this] ni show ?thesis by simp
  qed
qed

lemma scan_back_Some:
  "scan_back lines d i = Some j \<longleftrightarrow>
     j < i \<and> indent (lines ! j) < d \<and> (\<forall>k. j < k \<and> k < i \<longrightarrow> \<not> indent (lines ! k) < d)"
  using scan_back_SomeD [of lines d i j] scan_back_SomeI [of j i lines d] by blast

lemma scan_back_None:
  "scan_back lines d i = None \<longleftrightarrow> (\<forall>j<i. \<not> indent (lines ! j) < d)"
  by (induction i) (auto simp: less_Suc_eq)

lemma nth_add_connections:
  "i < length nodes \<Longrightarrow>
   add_connections lines nodes ! i =
     (if connections (nodes ! i) \<noteq> None then process_connections lines i (nodes ! i) else nodes ! i)"
  by (simp add: add_connections_def nth_enumerate_eq)

lemma length_add_connections: "length (add_connections lines nodes) = length nodes"
  by (simp add: add_connections_def)

lemma append_connection_sel:
  "ntype (append_connection nd j) = ntype nd" "nvalue (append_connection nd j) = nvalue nd"
  "subnodes (append_connection nd j) = subnodes nd"
  "connections (append_connection nd j) = map_option (\<lambda>cs. cs @ [j]) (connections nd)"
  by (cases nd; simp)+

lemma process_connections_sel:
  "ntype (process_connections lines i nd) = ntype nd"
  "nvalue (process_connections lines i nd) = nvalue nd"
  "subnodes (process_connections lines i nd) = subnodes nd"
  by (simp_all add: process_connections_def Let_def append_connection_sel split: option.splits)

lemma process_connections_conns:
  "connections nd = Some [] \<Longrightarrow>
   connections (process_connections lines i nd) =
     Some (case scan_back lines (indent (lines ! i)) i of None \<Rightarrow> [] | Some j \<Rightarrow> [j])"
proof (cases "indent (lines ! i) > 0")
  case True
  assume "connections nd = Some []"
  with True show ?thesis
    by (simp add: process_connections_def Let_def append_connection_sel split: option.splits)
next
  case False
  assume c: "connections nd = Some []"
  from False have "scan_back lines (indent (lines ! i)) i = None"
    by (simp add: scan_back_None)
  with False c show ?thesis by (simp add: process_connections_def Let_def)
qed

lemma parse_nth:
  assumes "i < length (parse layout lines)"
  shows "ntype (parse layout lines ! i) = ntype (parse_from layout 0 lines ! i)"
    and "nvalue (parse layout lines ! i) = nvalue (parse_from layout 0 lines ! i)"
    and "subnodes (parse layout lines ! i) = None"
    and "connections (parse layout lines ! i) =
          (if ntype (parse layout lines ! i) = Tetrahedral then None
           else Some (case scan_back lines (indent (lines ! i)) i of None \<Rightarrow> [] | Some j \<Rightarrow> [j]))"
proof -
  let ?nodes = "parse_from layout 0 lines"
  from assms have i: "i < length ?nodes" by (simp add: parse_def length_add_connections)
  then have mem: "?nodes ! i \<in> set ?nodes" by simp
  note pc = parse_from_conns [OF mem]
  have nth: "parse layout lines ! i =
     (if connections (?nodes ! i) \<noteq> None then process_connections lines i (?nodes ! i) else ?nodes ! i)"
    using i by (simp add: parse_def nth_add_connections)
  show t: "ntype (parse layout lines ! i) = ntype (?nodes ! i)"
    using nth by (simp add: process_connections_sel)
  show "nvalue (parse layout lines ! i) = nvalue (?nodes ! i)"
    using nth by (simp add: process_connections_sel)
  show "subnodes (parse layout lines ! i) = None"
    using nth pc by (simp add: process_connections_sel)
  show "connections (parse layout lines ! i) =
          (if ntype (parse layout lines ! i) = Tetrahedral then None
           else Some (case scan_back lines (indent (lines ! i)) i of None \<Rightarrow> [] | Some j \<Rightarrow> [j]))"
  proof (cases "ntype (?nodes ! i) = Tetrahedral")
    case True
    with pc nth t show ?thesis by simp
  next
    case False
    with pc have "connections (?nodes ! i) = Some []" by simp
    with nth t False show ?thesis by (simp add: process_connections_conns)
  qed
qed

lemma parse_all_lines:
  assumes "\<forall>l\<in>set lines. yields_node l"
  shows "length (parse layout lines) = length lines"
    and "i < length lines \<Longrightarrow> nvalue (parse layout lines ! i) = strip (lines ! i)"
    and "i < length lines \<Longrightarrow> classify (strip (lines ! i)) = Some (ntype (parse layout lines ! i))"
proof -
  note pf = parse_from_all [OF assms, where n = 0]
  show len: "length (parse layout lines) = length lines"
    using pf by (simp add: parse_def length_add_connections)
  {
    assume i: "i < length lines"
    with pf have c: "create_node (strip (lines ! i)) (fst (layout i)) (snd (layout i))
        = Some (parse_from layout 0 lines ! i)" by simp
    from i len have i': "i < length (parse layout lines)" by simp
    from create_node_cases [of "strip (lines ! i)" "fst (layout i)" "snd (layout i)"] c
    have "nvalue (parse_from layout 0 lines ! i) = strip (lines ! i)"
      and "classify (strip (lines ! i)) = Some (ntype (parse_from layout 0 lines ! i))" by auto
    with parse_nth(1,2) [OF i'] 
    have "nvalue (parse layout lines ! i) = strip (lines ! i) \<and>
          classify (strip (lines ! i)) = Some (ntype (parse layout lines ! i))" by simp
  }
  then show "i < length lines \<Longrightarrow> nvalue (parse layout lines ! i) = strip (lines ! i)"
    and "i < length lines \<Longrightarrow> classify (strip (lines ! i)) = Some (ntype (parse layout lines ! i))"
    by simp_all
qed


text \<open>
  C2, as the specification states it, fails. In \<^verbatim>\<open>for i in range(3):\<close> followed by the
  indented \<^verbatim>\<open>print(i)\<close>, the second node is indented more than the first, which the
  claim makes its parent. The code gives a Tetrahedral node no \<^verbatim>\<open>connections\<close> key and
  \<^verbatim>\<open>_add_connections_parallel\<close> passes such nodes over, so the statement is linked to
  nothing, and the loop's own list stays empty.
\<close>

theorem parse_statement_has_no_parent:
  "map ntype (parse flat_layout ex_body) = [Hexagonal, Tetrahedral]
   \<and> map nvalue (parse flat_layout ex_body) = [''for i in range(3):'', ''print(i)'']
   \<and> indent (ex_body ! 0) < indent (ex_body ! 1)
   \<and> map connections (parse flat_layout ex_body) = [Some [], None]"
  by (simp add: ex_body_def parse_def add_connections_def create_node_def strip_def rstrip_def
      lstrip_def is_space_def indent_def process_connections_def)

text \<open>
  C2, amended. For every input, a node has the key \<^verbatim>\<open>connections\<close> exactly when it is
  not a Statement, the list holds at most one entry, and that entry is an earlier node,
  so no node is its own ancestor. When every source line gives a node (no blank and no
  skipped line, so that a node's index is its line's index), a block node's single entry
  is the nearest earlier node whose line is indented strictly less than its own, and the
  list is empty exactly when no earlier line is indented less; Statement nodes are given
  no parent.
\<close>

theorem parse_parent_nearest_enclosing:
  assumes "i < length (parse layout lines)"
  shows "(connections (parse layout lines ! i) = None \<longleftrightarrow> ntype (parse layout lines ! i) = Tetrahedral)
    \<and> (\<forall>cs. connections (parse layout lines ! i) = Some cs \<longrightarrow> length cs \<le> 1 \<and> (\<forall>j\<in>set cs. j < i))
    \<and> ((\<forall>l\<in>set lines. yields_node l) \<longrightarrow>
         length (parse layout lines) = length lines
       \<and> nvalue (parse layout lines ! i) = strip (lines ! i)
       \<and> (\<forall>j. connections (parse layout lines ! i) = Some [j] \<longleftrightarrow>
               ntype (parse layout lines ! i) \<noteq> Tetrahedral \<and> j < i
             \<and> indent (lines ! j) < indent (lines ! i)
             \<and> (\<forall>k. j < k \<and> k < i \<longrightarrow> \<not> indent (lines ! k) < indent (lines ! i)))
       \<and> (connections (parse layout lines ! i) = Some [] \<longleftrightarrow>
               ntype (parse layout lines ! i) \<noteq> Tetrahedral
             \<and> (\<forall>j<i. \<not> indent (lines ! j) < indent (lines ! i))))"
proof -
  let ?sb = "scan_back lines (indent (lines ! i)) i"
  note c = parse_nth(4) [OF assms]
  have a: "connections (parse layout lines ! i) = None \<longleftrightarrow> ntype (parse layout lines ! i) = Tetrahedral"
    using c by simp
  have one: "connections (parse layout lines ! i) = Some [j] \<longleftrightarrow>
               ntype (parse layout lines ! i) \<noteq> Tetrahedral \<and> j < i
             \<and> indent (lines ! j) < indent (lines ! i)
             \<and> (\<forall>k. j < k \<and> k < i \<longrightarrow> \<not> indent (lines ! k) < indent (lines ! i))" for j
  proof -
    have "connections (parse layout lines ! i) = Some [j] \<longleftrightarrow> ntype (parse layout lines ! i) \<noteq> Tetrahedral \<and> ?sb = Some j"
      using c by (cases ?sb) auto
    then show ?thesis by (simp only: scan_back_Some)
  qed
  have none: "connections (parse layout lines ! i) = Some [] \<longleftrightarrow>
               ntype (parse layout lines ! i) \<noteq> Tetrahedral \<and> (\<forall>j<i. \<not> indent (lines ! j) < indent (lines ! i))"
  proof -
    have "connections (parse layout lines ! i) = Some [] \<longleftrightarrow> ntype (parse layout lines ! i) \<noteq> Tetrahedral \<and> ?sb = None"
      using c by (cases ?sb) auto
    then show ?thesis by (simp only: scan_back_None)
  qed
  have b: "length cs \<le> 1 \<and> (\<forall>j\<in>set cs. j < i)" if "connections (parse layout lines ! i) = Some cs" for cs
  proof (cases ?sb)
    case None
    with c that show ?thesis by (auto split: if_splits)
  next
    case (Some j)
    then have "j < i" by (simp add: scan_back_Some)
    with c that Some show ?thesis by (auto split: if_splits)
  qed
  have d: "length (parse layout lines) = length lines \<and> nvalue (parse layout lines ! i) = strip (lines ! i)"
    if "\<forall>l\<in>set lines. yields_node l"
    using parse_all_lines(1,2) [OF that] assms by simp
  show ?thesis using a b one none d by blast
qed

theorem parse_parent_nearest_enclosing_witness:
  "1 < length (parse flat_layout ex_block) \<and> list_all yields_node ex_block
   \<and> connections (parse flat_layout ex_block ! 1) = Some [0]
   \<and> indent (ex_block ! 0) < indent (ex_block ! 1)"
proof -
  have h1: "1 < length (parse flat_layout ex_block)"
    by (simp add: ex_block_def parse_def add_connections_def create_node_def strip_def rstrip_def
      lstrip_def is_space_def)
  have h2: "\<forall>l\<in>set ex_block. yields_node l"
    by (simp add: ex_block_def yields_node_def classify_def create_node_def strip_def rstrip_def
      lstrip_def is_space_def)
  have t: "ntype (parse flat_layout ex_block ! 1) \<noteq> Tetrahedral"
    by (simp add: ex_block_def parse_def add_connections_def create_node_def strip_def rstrip_def
      lstrip_def is_space_def process_connections_def indent_def)
  have i: "indent (ex_block ! 0) < indent (ex_block ! 1)"
    by (simp add: ex_block_def indent_def lstrip_def is_space_def)
  from parse_parent_nearest_enclosing [OF h1] h2 t i
  have "connections (parse flat_layout ex_block ! 1) = Some [0]" by simp
  with h1 h2 i show ?thesis by (simp add: list_all_iff)
qed

text \<open>
  Why the second part of the amended claim asks that every line give a node: after a
  blank first line the nodes are one place ahead of their lines, \<^verbatim>\<open>_process_connections\<close>
  reads for the indented \<^verbatim>\<open>if y:\<close> the indentation of the line \<^verbatim>\<open>for i in x:\<close>, which
  is 0, and records no parent.
\<close>

lemma parse_blank_line_shifts_index:
  "map nvalue (parse flat_layout [[], ''for i in x:'', ''    if y:'']) = [''for i in x:'', ''if y:'']
   \<and> map connections (parse flat_layout [[], ''for i in x:'', ''    if y:'']) = [Some [], Some []]"
  by (simp add: parse_def add_connections_def create_node_def strip_def rstrip_def
      lstrip_def is_space_def indent_def process_connections_def)

section \<open>The fractal optimizer\<close>

lemma group_loop_ok:
  "\<forall>nd\<in>set current \<union> set rest. split_ws (nvalue nd) \<noteq> [] \<Longrightarrow>
   \<exists>gs. group_loop groups current rest = Inr gs
        \<and> concat gs = concat groups @ current @ rest
        \<and> ([] \<notin> set groups \<longrightarrow> [] \<notin> set gs)"
proof (induction rest arbitrary: groups current)
  case Nil
  then show ?case by simp
next
  case (Cons nd rest)
  show ?case
  proof (cases "current = []")
    case True
    have "\<forall>n\<in>set [nd] \<union> set rest. split_ws (nvalue n) \<noteq> []"
      using Cons.prems by simp
    from Cons.IH [OF this, of groups] True show ?thesis by simp
  next
    case False
    then have "last current \<in> set current" by simp
    then obtain r where r: "nodes_are_similar (last current) nd = Inr r"
      using nodes_are_similar_ok [of "last current" nd] Cons.prems by auto
    show ?thesis
    proof (cases r)
      case True
      have "\<forall>n\<in>set (current @ [nd]) \<union> set rest. split_ws (nvalue n) \<noteq> []"
        using Cons.prems by auto
      from Cons.IH [OF this, of groups] r True False show ?thesis by simp
    next
      case nr: False
      have "\<forall>n\<in>set [nd] \<union> set rest. split_ws (nvalue n) \<noteq> []"
        using Cons.prems by simp
      from Cons.IH [OF this, of "groups @ [current]"] r nr False show ?thesis by simp
    qed
  qed
qed

lemma count_leaves_parent:
  "create_fractal_parent g = Inr p \<Longrightarrow> count_leaves p = sum_list (map count_leaves g)"
  by (cases g) auto

lemma optimize_groups_ok:
  "[] \<notin> set gs \<Longrightarrow>
   \<exists>res. optimize_groups gs = Inr res
        \<and> list_all2 (\<lambda>g r. if length g > 1 then create_fractal_parent g = Inr r else g = [r]) gs res
        \<and> sum_list (map count_leaves res) = sum_list (map count_leaves (concat gs))"
proof (induction gs)
  case Nil
  then show ?case by simp
next
  case (Cons g gs)
  then obtain res where res: "optimize_groups gs = Inr res"
    "list_all2 (\<lambda>g r. if length g > 1 then create_fractal_parent g = Inr r else g = [r]) gs res"
    "sum_list (map count_leaves res) = sum_list (map count_leaves (concat gs))"
    by auto
  from Cons.prems obtain a as where g: "g = a # as" by (cases g) auto
  show ?case
  proof (cases "length g > 1")
    case True
    obtain p where p: "create_fractal_parent g = Inr p" using g by auto
    then have "count_leaves p = sum_list (map count_leaves g)" by (rule count_leaves_parent)
    with p res True show ?thesis by (simp add: optimize_group_def)
  next
    case False
    then have "g = [a]" using g by simp
    with res show ?thesis by (simp add: optimize_group_def)
  qed
qed

lemma optimize_ok:
  assumes "\<forall>nd\<in>set nodes. split_ws (nvalue nd) \<noteq> []"
  shows "\<exists>groups res. group_similar_nodes nodes = Inr groups \<and> optimize nodes = Inr res
           \<and> concat groups = nodes \<and> [] \<notin> set groups
           \<and> list_all2 (\<lambda>g r. if length g > 1 then create_fractal_parent g = Inr r else g = [r]) groups res
           \<and> sum_list (map count_leaves res) = sum_list (map count_leaves nodes)"
proof -
  from group_loop_ok [of "[]" nodes "[]"] assms
  obtain gs where gs: "group_loop [] [] nodes = Inr gs" "concat gs = nodes" "[] \<notin> set gs"
    by auto
  from optimize_groups_ok [OF gs(3)] obtain res where res: "optimize_groups gs = Inr res"
    "list_all2 (\<lambda>g r. if length g > 1 then create_fractal_parent g = Inr r else g = [r]) gs res"
    "sum_list (map count_leaves res) = sum_list (map count_leaves (concat gs))"
    by auto
  show ?thesis
    using gs res by (simp add: optimize_def group_similar_nodes_def)
qed

lemma strip_nonempty_token: "strip l \<noteq> [] \<Longrightarrow> split_ws (strip l) \<noteq> []"
proof -
  assume ne: "strip l \<noteq> []"
  let ?d = "dropWhile is_space (rev (lstrip l))"
  from ne have d: "?d \<noteq> []" by (simp add: strip_def rstrip_def)
  then have "\<not> is_space (hd ?d)" by (rule hd_dropWhile)
  moreover have "hd ?d \<in> set (strip l)" using d by (simp add: strip_def rstrip_def)
  ultimately show ?thesis by (auto simp: split_ws_Nil_iff)
qed

lemma parse_from_value:
  "nd \<in> set (parse_from layout n ls) \<Longrightarrow> \<exists>l\<in>set ls. nvalue nd = strip l \<and> strip l \<noteq> []"
proof (induction ls arbitrary: n)
  case Nil
  then show ?case by simp
next
  case (Cons l ls)
  let ?c = "create_node (strip l) (fst (layout n)) (snd (layout n))"
  have rest: "nd \<in> set (parse_from layout (Suc n) ls) \<Longrightarrow> \<exists>l\<in>set ls. nvalue nd = strip l \<and> strip l \<noteq> []"
    by (rule Cons.IH)
  show ?case
  proof (cases "strip l = [] \<or> ?c = None")
    case True
    then have "parse_from layout n (l # ls) = parse_from layout (Suc n) ls"
      by (auto simp: Let_def)
    with Cons.prems rest show ?thesis by auto
  next
    case False
    then obtain nd' where c: "?c = Some nd'" by auto
    with False have eq: "parse_from layout n (l # ls) = nd' # parse_from layout (Suc n) ls"
      by (simp add: Let_def)
    have "nvalue nd' = strip l"
      using create_node_cases [of "strip l" "fst (layout n)" "snd (layout n)"] c by simp
    with Cons.prems eq rest False show ?thesis by auto
  qed
qed

lemma parse_value_token:
  assumes "nd \<in> set (parse layout lines)"
  shows "split_ws (nvalue nd) \<noteq> [] \<and> subnodes nd = None"
proof -
  from assms obtain i where i: "i < length (parse layout lines)" "nd = parse layout lines ! i"
    by (auto simp: in_set_conv_nth)
  then have i': "i < length (parse_from layout 0 lines)"
    by (simp add: parse_def length_add_connections)
  then have "parse_from layout 0 lines ! i \<in> set (parse_from layout 0 lines)" by simp
  from parse_from_value [OF this] obtain l where "nvalue (parse_from layout 0 lines ! i) = strip l" "strip l \<noteq> []"
    by auto
  then have "split_ws (nvalue (parse_from layout 0 lines ! i)) \<noteq> []"
    using strip_nonempty_token by simp
  with i parse_nth(2,3) [OF i(1)] show ?thesis by simp
qed

lemma count_leaves_plain: "subnodes nd = None \<Longrightarrow> count_leaves nd = 1"
  by (cases nd) simp

lemma sum_leaves_plain:
  "\<forall>nd\<in>set nodes. subnodes nd = None \<Longrightarrow> sum_list (map count_leaves nodes) = length nodes"
  by (induction nodes) (simp_all add: count_leaves_plain)


lemma group_loop_runs:
  assumes "\<forall>nd\<in>set current \<union> set rest. split_ws (nvalue nd) \<noteq> []"
    and "successively similar current"
    and "\<forall>g\<in>set groups. successively similar g"
    and "successively run_break groups"
    and "groups \<noteq> [] \<longrightarrow> current \<noteq> [] \<and> run_break (last groups) current"
  shows "\<exists>gs. group_loop groups current rest = Inr gs
           \<and> (\<forall>g\<in>set gs. successively similar g) \<and> successively run_break gs"
  using assms
proof (induction rest arbitrary: groups current)
  case Nil
  show ?case
  proof (cases "current = []")
    case True
    with Nil show ?thesis by auto
  next
    case False
    with Nil have "successively run_break (groups @ [current])"
      by (auto simp: successively_append_iff)
    with Nil False show ?thesis by auto
  qed
next
  case (Cons nd rest)
  have tok: "\<forall>n\<in>set [nd] \<union> set rest. split_ws (nvalue n) \<noteq> []"
    using Cons.prems(1) by simp
  show ?case
  proof (cases "current = []")
    case True
    with Cons.prems(5) have g: "groups = []" by auto
    have "\<exists>gs. group_loop [] [nd] rest = Inr gs
           \<and> (\<forall>g\<in>set gs. successively similar g) \<and> successively run_break gs"
      by (rule Cons.IH) (use tok in simp_all)
    with True g show ?thesis by simp
  next
    case False
    then have "last current \<in> set current" by simp
    then obtain r where r: "nodes_are_similar (last current) nd = Inr r"
      using nodes_are_similar_ok [of "last current" nd] Cons.prems(1) by auto
    show ?thesis
    proof (cases r)
      case True
      have t: "\<forall>n\<in>set (current @ [nd]) \<union> set rest. split_ws (nvalue n) \<noteq> []"
        using Cons.prems(1) by auto
      have s: "successively similar (current @ [nd])"
        using Cons.prems(2) r True False by (simp add: successively_append_iff similar_def)
      have b: "groups \<noteq> [] \<longrightarrow> current @ [nd] \<noteq> [] \<and> run_break (last groups) (current @ [nd])"
        using Cons.prems(5) False by (simp add: run_break_def)
      have "\<exists>gs. group_loop groups (current @ [nd]) rest = Inr gs
           \<and> (\<forall>g\<in>set gs. successively similar g) \<and> successively run_break gs"
        by (rule Cons.IH [OF t s Cons.prems(3) Cons.prems(4) b])
      with r True False show ?thesis by simp
    next
      case nr: False
      have s: "successively similar [nd]" by simp
      have a: "\<forall>g\<in>set (groups @ [current]). successively similar g"
        using Cons.prems(2,3) by simp
      have sb: "successively run_break (groups @ [current])"
        using Cons.prems(4,5) by (auto simp: successively_append_iff)
      have b: "groups @ [current] \<noteq> [] \<longrightarrow> [nd] \<noteq> [] \<and> run_break (last (groups @ [current])) [nd]"
        using r nr by (simp add: run_break_def)
      have "\<exists>gs. group_loop (groups @ [current]) [nd] rest = Inr gs
           \<and> (\<forall>g\<in>set gs. successively similar g) \<and> successively run_break gs"
        by (rule Cons.IH [OF tok s a sb b])
      with r nr False show ?thesis by simp
    qed
  qed
qed

lemma group_similar_nodes_runs:
  assumes "\<forall>nd\<in>set nodes. split_ws (nvalue nd) \<noteq> []"
    and "group_similar_nodes nodes = Inr groups"
  shows "(\<forall>g\<in>set groups. successively similar g) \<and> successively run_break groups"
proof -
  have "\<exists>gs. group_loop [] [] nodes = Inr gs
           \<and> (\<forall>g\<in>set gs. successively similar g) \<and> successively run_break gs"
    by (rule group_loop_runs) (use assms(1) in simp_all)
  with assms(2) show ?thesis by (simp add: group_similar_nodes_def)
qed

text \<open>
  C6. When every node's value has a first token (which \<open>parse_value_token\<close> shows of
  every node the parser makes), \<^verbatim>\<open>optimize\<close> returns; the groups it forms are non-empty
  and concatenate to the node list it started from, so no node is dropped; a group of
  one passes through as it is and a longer group becomes the subnodes of one wrapper;
  each group is a run of nodes similar to their neighbours, and neighbouring groups
  are not similar where they meet; and the leaves of the result, counted into subnodes,
  are the leaves of the input, which for nodes without subnodes is their number.
\<close>

theorem optimize_preserves_leaves:
  assumes "\<forall>nd\<in>set nodes. split_ws (nvalue nd) \<noteq> []"
  shows "\<exists>groups res. group_similar_nodes nodes = Inr groups \<and> optimize nodes = Inr res
           \<and> concat groups = nodes \<and> [] \<notin> set groups
           \<and> list_all2 (\<lambda>g r. if length g > 1 then create_fractal_parent g = Inr r else g = [r]) groups res
           \<and> (\<forall>g\<in>set groups. successively similar g) \<and> successively run_break groups
           \<and> sum_list (map count_leaves res) = sum_list (map count_leaves nodes)
           \<and> ((\<forall>nd\<in>set nodes. subnodes nd = None) \<longrightarrow> sum_list (map count_leaves res) = length nodes)"
proof -
  from optimize_ok [OF assms] obtain groups res where
    r: "group_similar_nodes nodes = Inr groups" "optimize nodes = Inr res"
       "concat groups = nodes" "[] \<notin> set groups"
       "list_all2 (\<lambda>g r. if length g > 1 then create_fractal_parent g = Inr r else g = [r]) groups res"
       "sum_list (map count_leaves res) = sum_list (map count_leaves nodes)"
    by blast
  have "(\<forall>nd\<in>set nodes. subnodes nd = None) \<longrightarrow> sum_list (map count_leaves res) = length nodes"
    using r(6) sum_leaves_plain [of nodes] by simp
  with r group_similar_nodes_runs [OF assms r(1)] show ?thesis by blast
qed

theorem optimize_preserves_leaves_witness:
  "list_all (\<lambda>nd. split_ws (nvalue nd) \<noteq> []) ex_nodes \<and> list_all (\<lambda>nd. subnodes nd = None) ex_nodes
   \<and> (\<exists>res. optimize ex_nodes = Inr res
         \<and> map nvalue res = [''group_tetrahedral'', ''for i in x:'']
         \<and> map (map_option (map nvalue) \<circ> subnodes) res = [Some [''x = 1'', ''x = 2''], None]
         \<and> sum_list (map count_leaves res) = 3)"
proof -
  have h: "\<forall>nd\<in>set ex_nodes. split_ws (nvalue nd) \<noteq> []"
    by (simp add: ex_nodes_def split_ws_Nil_iff is_space_def)
  have p: "\<forall>nd\<in>set ex_nodes. subnodes nd = None"
    by (simp add: ex_nodes_def)
  have l: "length ex_nodes = 3" by (simp add: ex_nodes_def)
  have e: "map nvalue (projr (optimize ex_nodes)) = [''group_tetrahedral'', ''for i in x:'']
      \<and> map (map_option (map nvalue) \<circ> subnodes) (projr (optimize ex_nodes))
            = [Some [''x = 1'', ''x = 2''], None]"
    by (simp add: optimize_def group_similar_nodes_def ex_nodes_def nodes_are_similar_def
        first_token_def split_ws.simps is_space_def optimize_group_def)
  from optimize_preserves_leaves [OF h] p l
  obtain res where "optimize ex_nodes = Inr res" "sum_list (map count_leaves res) = 3" by auto
  with e have "\<exists>res. optimize ex_nodes = Inr res
         \<and> map nvalue res = [''group_tetrahedral'', ''for i in x:'']
         \<and> map (map_option (map nvalue) \<circ> subnodes) res = [Some [''x = 1'', ''x = 2''], None]
         \<and> sum_list (map count_leaves res) = 3" by simp
  with h p show ?thesis by (simp add: list_all_iff)
qed

section \<open>The runtime: what one node does\<close>

lemma emit_simps [simp]:
  "executed (emit ls st) = executed st"
  "env (emit ls st) = env st"
  "routput (emit ls st) = routput st @ ls"
  by (simp_all add: emit_def)





lemma enter_simps [simp]:
  "executed (enter node e printed st) = insert node (executed st)"
  "env (enter node e printed st) = e"
  "routput (enter node e printed st) = routput st @ printed"
  by (simp_all add: enter_def)

lemma enter_alt:
  "emit printed (st\<lparr>executed := insert node (executed st)\<rparr>\<lparr>env := e\<rparr>) = enter node e printed st"
  by (simp add: enter_def emit_def)






text \<open>
  How a Loop node with a well-formed text goes on: the values are drawn once, and
  \<open>loop_values\<close> writes the line of each value and hands the connections to the
  dispatch before it turns to the next value.
\<close>

lemma loop_node_values:
  assumes "rtype (store node) = Hexagonal"
    and "split_sep '' in '' (rvalue (store node)) = [loop_var, loop_range]"
    and "py_eval py loop_range (env st) = (e, printed, Inr v)"
    and "py_iter py v = Inr vals"
  shows "execute_node_parallel py pool store st node
           = loop_values py pool (enter node e printed st) (store node) vals"
  using assms by (simp add: execute_node_parallel_def Let_def enter_alt)



section \<open>Saving and loading\<close>

lemma collect_Inr: "collect zs = Inr ys \<longleftrightarrow> zs = map Inr ys"
proof (induction zs arbitrary: ys)
  case Nil
  then show ?case by auto
next
  case (Cons z zs)
  show ?case
  proof (cases z)
    case (Inl e)
    then show ?thesis by auto
  next
    case (Inr a)
    show ?thesis
    proof (cases "collect zs")
      case (Inl e)
      with Cons.IH have "\<And>ys'. zs \<noteq> map Inr ys'" by auto
      with Inl Inr show ?thesis by (cases ys) auto
    next
      case r: (Inr as)
      with Cons.IH [of as] have "zs = map Inr as" by simp
      with r Inr show ?thesis by (cases ys) (auto simp: inj_eq)
    qed
  qed
qed

lemma collect_map_Inr: "collect (map Inr ys) = Inr ys"
  by (simp add: collect_Inr)

lemma index_of_mem: "c \<in> set xs \<Longrightarrow> \<exists>i. index_of xs c = Inr i \<and> i < length xs \<and> xs ! i = c"
proof (induction xs)
  case Nil
  then show ?case by simp
next
  case (Cons x xs)
  show ?case
  proof (cases "x = c")
    case True
    then show ?thesis by simp
  next
    case False
    with Cons.prems have "c \<in> set xs" by simp
    from Cons.IH [OF this] obtain i where "index_of xs c = Inr i" "i < length xs" "xs ! i = c"
      by blast
    with False show ?thesis by simp
  qed
qed

lemma index_of_lt: "index_of xs c = Inr i \<Longrightarrow> i < length xs \<and> xs ! i = c"
proof (induction xs arbitrary: i)
  case Nil
  then show ?case by simp
next
  case (Cons x xs)
  show ?case
  proof (cases "x = c")
    case True
    with Cons.prems show ?thesis by simp
  next
    case False
    with Cons.prems obtain j where j: "index_of xs c = Inr j" "i = Suc j"
      by (auto split: sum.splits)
    from Cons.IH [OF j(1)] j(2) show ?thesis by simp
  qed
qed

lemma index_of_Inl: "index_of xs c = Inl e \<Longrightarrow> e = ValueError \<and> c \<notin> set xs"
  by (induction xs) (auto split: if_splits sum.splits)

lemma index_of_upt: "j < n \<Longrightarrow> index_of [0..<n] j = Inr j"
proof (induction n)
  case 0
  then show ?case by simp
next
  case (Suc n)
  have app: "index_of (xs @ [x]) c =
      (case index_of xs c of Inr i \<Rightarrow> Inr i
       | Inl e \<Rightarrow> if x = c then Inr (length xs) else Inl ValueError)" for xs :: "nat list" and x c
    by (induction xs) (auto split: sum.splits)
  show ?case
  proof (cases "j < n")
    case True
    with Suc.IH show ?thesis by (simp add: app)
  next
    case False
    with Suc.prems have jn: "j = n" by simp
    have "index_of [0..<n] n = Inl ValueError"
    proof (cases "index_of [0..<n] n")
      case (Inl e)
      with index_of_Inl [of "[0..<n]" n e] show ?thesis by simp
    next
      case (Inr i)
      from index_of_lt [OF this] have "i < n" "[0..<n] ! i = n" by simp_all
      then show ?thesis by simp
    qed
    with jn show ?thesis by (simp add: app)
  qed
qed

lemma py_nth_upt: "j < n \<Longrightarrow> py_nth [0..<n] (int j) = Inr j"
  by (simp add: py_nth_def)

lemma collect_map_cong:
  "(\<And>x. x \<in> set xs \<Longrightarrow> f x = Inr (g x)) \<Longrightarrow> collect (map f xs) = Inr (map g xs)"
proof -
  assume "\<And>x. x \<in> set xs \<Longrightarrow> f x = Inr (g x)"
  then have "map f xs = map Inr (map g xs)" by simp
  then show ?thesis by (simp only: collect_map_Inr)
qed


text \<open>
  C8. When every connection of every listed item is itself in the list, saving
  succeeds, and loading what was saved gives a list of as many new items, with the same
  kind, text and position at each place; the connections of the item at a place are the
  items at the places which the connections of the old item had in the old list; and
  saving the loaded list gives the same records again.
\<close>

theorem save_load_roundtrip:
  fixes nodes :: "(ref \<times> item) list"
  assumes wf: "\<forall>(r, it)\<in>set nodes. set (iconnections it) \<subseteq> fst ` set nodes"
  shows "\<exists>data nodes'. save_phixeo nodes = Inr data \<and> load_phixeo data = Inr nodes'
     \<and> length nodes' = length nodes
     \<and> map fst nodes' = [0..<length nodes]
     \<and> map (itype \<circ> snd) nodes' = map (itype \<circ> snd) nodes
     \<and> map (ivalue \<circ> snd) nodes' = map (ivalue \<circ> snd) nodes
     \<and> map (ipos \<circ> snd) nodes' = map (ipos \<circ> snd) nodes
     \<and> (\<forall>i<length nodes.
           map Inr (iconnections (snd (nodes' ! i)))
             = map (index_of (map fst nodes)) (iconnections (snd (nodes ! i))))
     \<and> save_phixeo nodes' = Inr data"
proof -
  let ?objs = "map fst nodes"
  let ?n = "length nodes"
  define idx where "idx c = projr (index_of ?objs c)" for c
  define recf where "recf it = \<lparr>p_type = itype it, p_x = fst (ipos it), p_y = snd (ipos it),
               p_value = ivalue it, p_connections = map int (map idx (iconnections it))\<rparr>" for it :: item
  define itf where "itf it = \<lparr>itype = itype it, ivalue = ivalue it, ipos = ipos it,
               iconnections = map idx (iconnections it)\<rparr>" for it :: item
  let ?data = "map (recf \<circ> snd) nodes"
  let ?its = "map (itf \<circ> snd) nodes"
  let ?nodes' = "zip [0..<?n] ?its"
  have conn: "c \<in> set ?objs" if "p \<in> set nodes" "c \<in> set (iconnections (snd p))" for p c
    using wf that by (cases p) auto
  have ix: "index_of ?objs c = Inr (idx c) \<and> idx c < ?n"
    if "p \<in> set nodes" "c \<in> set (iconnections (snd p))" for p c
  proof -
    from index_of_mem [OF conn [OF that]] obtain i where "index_of ?objs c = Inr i" "i < length ?objs"
      by blast
    then show ?thesis by (simp add: idx_def)
  qed
  have A: "save_record ?objs (snd p) = Inr (recf (snd p))" if "p \<in> set nodes" for p
  proof -
    have "collect (map (index_of ?objs) (iconnections (snd p))) = Inr (map idx (iconnections (snd p)))"
      by (rule collect_map_cong) (use ix [OF that] in simp)
    then show ?thesis by (simp add: save_record_def recf_def)
  qed
  have B: "save_phixeo nodes = Inr ?data"
  proof -
    have "collect (map (\<lambda>p. save_record ?objs (snd p)) nodes) = Inr (map (\<lambda>p. recf (snd p)) nodes)"
      by (rule collect_map_cong) (rule A)
    then show ?thesis by (simp add: save_phixeo_def case_prod_unfold comp_def)
  qed
  have C: "load_record [0..<?n] (recf (snd p)) = Inr (itf (snd p))" if "p \<in> set nodes" for p
  proof -
    have "collect (map (py_nth [0..<?n]) (map int (map idx (iconnections (snd p)))))
            = Inr (map idx (iconnections (snd p)))"
    proof -
      have "map (py_nth [0..<?n]) (map int (map idx (iconnections (snd p))))
              = map Inr (map idx (iconnections (snd p)))"
        using ix [OF that] by (simp add: py_nth_upt)
      then show ?thesis by (simp only: collect_map_Inr)
    qed
    then show ?thesis by (simp add: load_record_def recf_def itf_def)
  qed
  have D: "load_phixeo ?data = Inr ?nodes'"
  proof -
    have "collect (map (\<lambda>p. load_record [0..<?n] (recf (snd p))) nodes)
            = Inr (map (\<lambda>p. itf (snd p)) nodes)"
      by (rule collect_map_cong) (rule C)
    then show ?thesis by (simp add: load_phixeo_def Let_def comp_def)
  qed
  have fst': "map fst ?nodes' = [0..<?n]" by simp
  have snd': "map snd ?nodes' = ?its" by simp
  have E: "save_record [0..<?n] (itf (snd p)) = Inr (recf (snd p))" if "p \<in> set nodes" for p
  proof -
    have "map (index_of [0..<?n]) (map idx (iconnections (snd p)))
              = map Inr (map idx (iconnections (snd p)))"
      using ix [OF that] by (simp add: index_of_upt)
    then have "collect (map (index_of [0..<?n]) (map idx (iconnections (snd p))))
            = Inr (map idx (iconnections (snd p)))"
      by (simp only: collect_map_Inr)
    then show ?thesis by (simp add: save_record_def recf_def itf_def)
  qed
  have F: "save_phixeo ?nodes' = Inr ?data"
  proof -
    have "map (\<lambda>(r, it). save_record [0..<?n] it) ?nodes'
            = map (save_record [0..<?n]) (map snd ?nodes')"
      by (simp only: map_map comp_def case_prod_unfold)
    also have "\<dots> = map (save_record [0..<?n]) ?its"
      by (simp only: snd')
    also have "\<dots> = map (\<lambda>p. save_record [0..<?n] (itf (snd p))) nodes"
      by simp
    also have "\<dots> = map Inr ?data" using E by simp
    finally have "collect (map (\<lambda>(r, it). save_record [0..<?n] it) ?nodes') = Inr ?data"
      by (simp only: collect_map_Inr)
    then show ?thesis by (simp only: save_phixeo_def fst')
  qed
  have G: "map Inr (iconnections (snd (?nodes' ! i)))
             = map (index_of ?objs) (iconnections (snd (nodes ! i)))" if "i < ?n" for i
  proof -
    from that have "nodes ! i \<in> set nodes" by simp
    from ix [OF this] have "map (index_of ?objs) (iconnections (snd (nodes ! i)))
         = map Inr (map idx (iconnections (snd (nodes ! i))))" by simp
    moreover have "snd (?nodes' ! i) = itf (snd (nodes ! i))" using that by simp
    ultimately show ?thesis by (simp add: itf_def)
  qed
  have H: "map (itype \<circ> snd) ?nodes' = map (itype \<circ> snd) nodes"
    "map (ivalue \<circ> snd) ?nodes' = map (ivalue \<circ> snd) nodes"
    "map (ipos \<circ> snd) ?nodes' = map (ipos \<circ> snd) nodes"
  proof -
    have "map (itype \<circ> snd) ?nodes' = map itype (map snd ?nodes')" by (simp only: map_map)
    then show "map (itype \<circ> snd) ?nodes' = map (itype \<circ> snd) nodes"
      by (simp only: snd') (simp add: itf_def)
    have "map (ivalue \<circ> snd) ?nodes' = map ivalue (map snd ?nodes')" by (simp only: map_map)
    then show "map (ivalue \<circ> snd) ?nodes' = map (ivalue \<circ> snd) nodes"
      by (simp only: snd') (simp add: itf_def)
    have "map (ipos \<circ> snd) ?nodes' = map ipos (map snd ?nodes')" by (simp only: map_map)
    then show "map (ipos \<circ> snd) ?nodes' = map (ipos \<circ> snd) nodes"
      by (simp only: snd') (simp add: itf_def)
  qed
  have L: "length ?nodes' = ?n" by simp
  from B D L fst' H G F show ?thesis by blast
qed

theorem save_load_roundtrip_witness:
  "save_phixeo ex_editor =
     Inr [\<lparr>p_type = Hexagonal, p_x = 1, p_y = 2, p_value = ''i in range(2)'', p_connections = [1, 0]\<rparr>,
          \<lparr>p_type = Tetrahedral, p_x = 3, p_y = 5, p_value = ''print(1)'', p_connections = []\<rparr>]
   \<and> (\<exists>nodes'. load_phixeo (projr (save_phixeo ex_editor)) = Inr nodes'
         \<and> map fst nodes' = [0, 1]
         \<and> map (iconnections \<circ> snd) nodes' = [[1, 0], []]
         \<and> map (ivalue \<circ> snd) nodes' = [''i in range(2)'', ''print(1)''])"
proof -
  have h: "\<forall>(r, it)\<in>set ex_editor. set (iconnections it) \<subseteq> fst ` set ex_editor"
    by (simp add: ex_editor_def)
  have s: "save_phixeo ex_editor =
     Inr [\<lparr>p_type = Hexagonal, p_x = 1, p_y = 2, p_value = ''i in range(2)'', p_connections = [1, 0]\<rparr>,
          \<lparr>p_type = Tetrahedral, p_x = 3, p_y = 5, p_value = ''print(1)'', p_connections = []\<rparr>]"
    by (simp add: ex_editor_def save_phixeo_def save_record_def)
  from save_load_roundtrip [OF h] obtain data nodes' where
    r: "save_phixeo ex_editor = Inr data" "load_phixeo data = Inr nodes'"
       "map fst nodes' = [0..<length ex_editor]"
       "map (ivalue \<circ> snd) nodes' = map (ivalue \<circ> snd) ex_editor"
       "\<forall>i<length ex_editor. map Inr (iconnections (snd (nodes' ! i)))
             = map (index_of (map fst ex_editor)) (iconnections (snd (ex_editor ! i)))"
       "length nodes' = length ex_editor"
    by blast
  have len: "length ex_editor = 2" by (simp add: ex_editor_def)
  have c0: "iconnections (snd (nodes' ! 0)) = [1, 0]"
  proof -
    from r(5) len have "map Inr (iconnections (snd (nodes' ! 0)))
             = map (index_of (map fst ex_editor)) (iconnections (snd (ex_editor ! 0)))" by simp
    also have "\<dots> = map Inr [1, 0]" by (simp add: ex_editor_def)
    finally have "map (Inr :: nat \<Rightarrow> error + nat) (iconnections (snd (nodes' ! 0))) = map Inr [1, 0]" .
    then show ?thesis by (simp only: inj_map_eq_map [OF inj_Inr])
  qed
  have c1: "iconnections (snd (nodes' ! 1)) = []"
  proof -
    from r(5) len have "map Inr (iconnections (snd (nodes' ! 1)))
             = map (index_of (map fst ex_editor)) (iconnections (snd (ex_editor ! 1)))" by simp
    also have "\<dots> = map Inr []" by (simp add: ex_editor_def)
    finally show ?thesis by simp
  qed
  from r(6) len obtain a b where ab: "nodes' = [a, b]"
    by (cases nodes'; cases "tl nodes'") auto
  have "map (iconnections \<circ> snd) nodes' = [[1, 0], []]"
    using c0 c1 ab by simp
  moreover have "map fst nodes' = [0, 1]" using r(3) len by (simp add: upt_rec numeral_2_eq_2)
  moreover have "map (ivalue \<circ> snd) nodes' = [''i in range(2)'', ''print(1)'']"
    using r(4) by (simp add: ex_editor_def)
  ultimately show ?thesis using s r(1,2) by simp
qed

end
